theory Spec2Isabelle
  imports Complex_Main "HOL-Library.Multiset"
begin

section \<open>Class-weighted learning notebook: data model\<close>

text \<open>
  The notebook is a linear script over two parallel Python lists, \<^verbatim>\<open>X_data\<close> (one
  feature vector per sample) and \<^verbatim>\<open>y_data\<close> (one integer label per sample, 0 for
  malignant and 1 for benign). Feature vectors are opaque here (type \<open>'f\<close>); labels are
  Python integers. While cell 5 runs, an entry of either list is a value or \<^verbatim>\<open>None\<close>,
  so the loop works on \<open>option\<close> lists.
\<close>

datatype error = IndexError | ValueError

type_synonym 'f cells = "'f option list \<times> int option list"

section \<open>Imbalance injection (cells 5 and 6)\<close>

text \<open>
  \<^verbatim>\<open>
  for i in range(200):
      if y_data[i] == 0:
          X_data[i] = None
          y_data[i] = None
  \<close>
  One iteration of the body at index \<open>i\<close>, for target label \<open>t\<close>: reading
  \<^verbatim>\<open>y_data[i]\<close> raises IndexError beyond the end of the list, and so does the
  assignment to \<^verbatim>\<open>X_data[i]\<close>. An entry that is already \<^verbatim>\<open>None\<close> does not
  compare equal to the label.
\<close>

definition inject_step :: "int \<Rightarrow> nat \<Rightarrow> 'f cells \<Rightarrow> error + 'f cells" where
  "inject_step t i s =
     (case s of (X_data, y_data) \<Rightarrow>
        if length y_data \<le> i then Inl IndexError
        else if y_data ! i = Some t then
          (if length X_data \<le> i then Inl IndexError
           else Inr (X_data[i := None], y_data[i := None]))
        else Inr (X_data, y_data))"

text \<open>The \<^verbatim>\<open>for\<close> loop over a list of indices; the first exception ends it.\<close>

fun inject_loop :: "int \<Rightarrow> nat list \<Rightarrow> 'f cells \<Rightarrow> error + 'f cells" where
  "inject_loop t [] s = Inr s"
| "inject_loop t (i # ixs) s =
     (case inject_step t i s of Inl e \<Rightarrow> Inl e | Inr s' \<Rightarrow> inject_loop t ixs s')"

text \<open>
  Cell 5 with the loop bound \<open>n\<close> and the label \<open>t\<close> as parameters (the script has
  \<open>n = 200\<close> and \<open>t = 0\<close>), started on lists that hold no \<^verbatim>\<open>None\<close>.
\<close>

definition cell5 :: "nat \<Rightarrow> int \<Rightarrow> 'f list \<Rightarrow> int list \<Rightarrow> error + 'f cells" where
  "cell5 n t X_data y_data = inject_loop t [0..<n] (map Some X_data, map Some y_data)"

text \<open>
  \<^verbatim>\<open>
  X_data = [x for x in X_data if x != None]
  y_data = [y for y in y_data if y != None]
  \<close>
\<close>

definition cell6 :: "'f cells \<Rightarrow> 'f list \<times> int list" where
  "cell6 s =
     (case s of (X_data, y_data) \<Rightarrow>
        (map the (filter (\<lambda>x. x \<noteq> None) X_data),
         map the (filter (\<lambda>y. y \<noteq> None) y_data)))"

definition inject :: "nat \<Rightarrow> int \<Rightarrow> 'f list \<Rightarrow> int list \<Rightarrow> error + ('f list \<times> int list)" where
  "inject n t X_data y_data =
     (case cell5 n t X_data y_data of Inl e \<Rightarrow> Inl e | Inr s \<Rightarrow> Inr (cell6 s))"

text \<open>The script's own instance: the first 200 positions, label 0.\<close>

definition imbalance_injection :: "'f list \<Rightarrow> int list \<Rightarrow> error + ('f list \<times> int list)" where
  "imbalance_injection X_data y_data = inject 200 0 X_data y_data"

text \<open>The positions that cell 5 blanks: those below the loop bound whose label is \<open>t\<close>.\<close>

definition removed :: "nat \<Rightarrow> int \<Rightarrow> int list \<Rightarrow> nat set" where
  "removed n t y_data = {i. i < n \<and> y_data ! i = t}"

definition kept :: "nat \<Rightarrow> int \<Rightarrow> int list \<Rightarrow> nat set" where
  "kept n t y_data = {i. \<not> (i < n \<and> y_data ! i = t)}"

text \<open>What the counters of cells 4 and 7 print: \<^verbatim>\<open>Counter(y_data)[c]\<close>.\<close>

definition label_count :: "int list \<Rightarrow> int \<Rightarrow> nat" where
  "label_count y_data c = count_list y_data c"

definition counts_after :: "nat \<Rightarrow> int \<Rightarrow> 'f list \<Rightarrow> int list \<Rightarrow> (nat \<times> nat) option" where
  "counts_after n t X_data y_data =
     (case inject n t X_data y_data of
        Inl e \<Rightarrow> None
      | Inr r \<Rightarrow> Some (label_count (snd r) 0, label_count (snd r) 1))"

section \<open>Train/test split (cell 8)\<close>

text \<open>
  \<^verbatim>\<open>
  X_train, X_test, y_train, y_test = train_test_split(np.asarray(X_data),
      np.asarray(y_data), test_size = 0.2, random_state = 7)
  \<close>
  Modelled from the spec: \<^verbatim>\<open>train_test_split\<close> is scikit-learn library code and is not
  part of the repository's sources. The spec has a splitter that partitions the rows into
  a train and a test set with a fixed seed and ratio, the sizes summing to the size of the
  dataset and respecting the ratio within rounding. Here the test size is the ratio of the
  total rounded up and the train set is the rest, which is what the shapes the notebook
  prints (372 and 93 out of 465) agree with. The shuffle drawn from the seed is a
  parameter, \<open>perm\<close>, an ordering of the positions: the test rows are the first
  \<open>n_test\<close> positions of it, the train rows the ones after.
\<close>

definition n_test :: "rat \<Rightarrow> nat \<Rightarrow> nat" where
  "n_test test_size n = nat \<lceil>test_size * of_nat n\<rceil>"

definition n_train :: "rat \<Rightarrow> nat \<Rightarrow> nat" where
  "n_train test_size n = n - n_test test_size n"

definition train_test_split :: "rat \<Rightarrow> nat list \<Rightarrow> 'a list \<Rightarrow> 'a list \<times> 'a list" where
  "train_test_split test_size perm xs =
     (let n = length xs
      in (map ((!) xs) (take (n_train test_size n) (drop (n_test test_size n) perm)),
          map ((!) xs) (take (n_test test_size n) perm)))"

text \<open>The script's call: both arrays are split along the same shuffle, ratio 0.2.\<close>

definition cell8 :: "nat list \<Rightarrow> 'f list \<Rightarrow> int list \<Rightarrow> ('f list \<times> 'f list) \<times> (int list \<times> int list)" where
  "cell8 perm X_data y_data =
     (train_test_split (1 / 5) perm X_data, train_test_split (1 / 5) perm y_data)"

section \<open>Class weights (cells 10 and 11)\<close>

text \<open>\<^verbatim>\<open>np.unique\<close>: the distinct labels, in increasing order.\<close>

definition np_unique :: "int list \<Rightarrow> int list" where
  "np_unique y = sort (remdups y)"

text \<open>
  \<^verbatim>\<open>
  weights = class_weight.compute_class_weight('balanced', np.unique(y_train), y_train)
  \<close>
  Modelled from the spec: \<^verbatim>\<open>compute_class_weight\<close> is scikit-learn library code and is
  not part of the repository's sources. The spec gives the estimator as
  \<open>weight(c) = N_total / (num_unique_classes * count(c))\<close>, one weight per class asked
  for, and an error signalled on an empty label sequence. The weights are exact rationals
  here; the rounding of the library's double-precision division is not modelled.
\<close>

definition compute_class_weight :: "int list \<Rightarrow> int list \<Rightarrow> error + rat list" where
  "compute_class_weight classes y =
     (if y = [] then Inl ValueError
      else Inr (map (\<lambda>c. of_nat (length y) /
                          (of_nat (length (np_unique y)) * of_nat (count_list y c))) classes))"

text \<open>
  \<^verbatim>\<open>dict(zip(keys, values))\<close>: the pairs are stored from left to right, a later pair
  replacing an earlier one with the same key.
\<close>

definition py_dict :: "('k \<times> 'v) list \<Rightarrow> ('k \<rightharpoonup> 'v)" where
  "py_dict kvs = fold (\<lambda>kv m. m(fst kv \<mapsto> snd kv)) kvs Map.empty"

text \<open>
  \<^verbatim>\<open>
  class_weights = dict(zip(np.unique(y_train), weights))
  \<close>
\<close>

definition class_weights :: "int list \<Rightarrow> error + (int \<rightharpoonup> rat)" where
  "class_weights y_train =
     (case compute_class_weight (np_unique y_train) y_train of
        Inl e \<Rightarrow> Inl e
      | Inr weights \<Rightarrow> Inr (py_dict (zip (np_unique y_train) weights)))"

text \<open>The weight of one class, when the estimator returns and the class has one.\<close>

definition weight_of :: "int list \<Rightarrow> int \<Rightarrow> rat option" where
  "weight_of y_train c = (case class_weights y_train of Inl e \<Rightarrow> None | Inr cw \<Rightarrow> cw c)"

section \<open>Evaluation (cells 15 and 16)\<close>

text \<open>
  \<^verbatim>\<open>
  y_pred = model.predict(X_test).round()
  print("% of predicted 1's: ", y_pred.sum()/len(y_pred))
  print("Overall Accuracy Score: ", accuracy_score(y_pred, y_test))
  \<close>
  A trained model is a function from a feature vector to a probability; the value of a
  floating-point output is a rational, and rounding it to an integer is exact.

  Modelled from the spec: \<^verbatim>\<open>round\<close> is numpy library code and is not part of the
  repository's sources. The spec has rounded binary predictions with the threshold 0.5;
  the rounding here is to the nearest integer, a tie going to the even one as the
  library documents it, which the spec leaves open.
\<close>

definition np_round :: "rat \<Rightarrow> int" where
  "np_round p =
     (let f = \<lfloor>p\<rfloor>; d = p - of_int f
      in if d < 1 / 2 then f else if 1 / 2 < d then f + 1 else if even f then f else f + 1)"

definition predict :: "('f \<Rightarrow> rat) \<Rightarrow> 'f list \<Rightarrow> rat list" where
  "predict model X_test = map model X_test"

definition y_pred :: "('f \<Rightarrow> rat) \<Rightarrow> 'f list \<Rightarrow> int list" where
  "y_pred model X_test = map np_round (predict model X_test)"

text \<open>
  \<^verbatim>\<open>y_pred.sum()/len(y_pred)\<close>; on an empty array the quotient \<open>0.0 / 0\<close> is not a
  number, which is \<open>None\<close> here.
\<close>

definition positive_fraction :: "int list \<Rightarrow> rat option" where
  "positive_fraction preds =
     (if preds = [] then None else Some (of_int (sum_list preds) / of_nat (length preds)))"

text \<open>
  Modelled from the spec: \<^verbatim>\<open>accuracy_score\<close> is scikit-learn library code and is not
  part of the repository's sources. The spec has the overall accuracy as the fraction of
  exact label matches: the share of positions where prediction and label are equal.
  Arrays of different lengths are refused, and an empty pair has no share.
\<close>

definition accuracy_score :: "int list \<Rightarrow> int list \<Rightarrow> error + rat" where
  "accuracy_score preds y_test =
     (if length preds \<noteq> length y_test \<or> y_test = [] then Inl ValueError
      else Inr (of_nat (length (filter (\<lambda>pl. fst pl = snd pl) (zip preds y_test))) /
                of_nat (length y_test)))"

section \<open>The scenario of the notebook\<close>

text \<open>
  The dataset itself is loaded from the library and is not in the sources. A dataset of
  the recorded shape, 212 samples of label 0 and 357 of label 1 with 104 of the label-0
  samples among the first 200 rows, as the counters printed by cells 4 and 7 show (212
  before, 108 after):
\<close>

definition scenario_y :: "int list" where
  "scenario_y = replicate 104 0 @ replicate 96 1 @ replicate 108 0 @ replicate 261 1"

definition scenario_X :: "nat list" where
  "scenario_X = [0..<569]"

text \<open>
  Training labels of the recorded shape: cell 8 prints 372 training rows and cell 11 the
  weights of a split that holds 83 samples of label 0 and 289 of label 1.
\<close>

definition recorded_y_train :: "int list" where
  "recorded_y_train = replicate 83 0 @ replicate 289 1"

section \<open>The injector as the specification words it\<close>

text \<open>
  The specification's injector, for comparison with the loop: it walks the samples and
  drops the first \<open>n\<close> whose label is the target, wherever they stand.
\<close>

fun spec_remove_first :: "nat \<Rightarrow> int \<Rightarrow> ('f \<times> int) list \<Rightarrow> ('f \<times> int) list" where
  "spec_remove_first 0 t ps = ps"
| "spec_remove_first (Suc n) t [] = []"
| "spec_remove_first (Suc n) t (p # ps) =
     (if snd p = t then spec_remove_first n t ps else p # spec_remove_first (Suc n) t ps)"

definition spec_inject :: "nat \<Rightarrow> int \<Rightarrow> 'f list \<Rightarrow> int list \<Rightarrow> 'f list \<times> int list" where
  "spec_inject n t X_data y_data =
     (map fst (spec_remove_first n t (zip X_data y_data)),
      map snd (spec_remove_first n t (zip X_data y_data)))"

section \<open>The loop, position by position\<close>

lemma inject_step_length:
  "inject_step t i (X, y) = Inr (X', y') \<Longrightarrow> length X' = length X \<and> length y' = length y"
  by (auto simp: inject_step_def split: if_splits)

lemma inject_loop_ok:
  "length X = length y \<Longrightarrow> \<forall>i\<in>set ixs. i < length y \<Longrightarrow>
   inject_loop t ixs (X, y) =
     Inr (map (\<lambda>j. if j \<in> set ixs \<and> y ! j = Some t then None else X ! j) [0..<length X],
          map (\<lambda>j. if j \<in> set ixs \<and> y ! j = Some t then None else y ! j) [0..<length y])"
proof (induction ixs arbitrary: X y)
  case Nil
  have "map ((!) X) [0..<length X] = X" and "map ((!) y) [0..<length y] = y"
    by (rule map_nth)+
  then show ?case by simp
next
  case (Cons i ixs)
  show ?case
  proof (cases "y ! i = Some t")
    case True
    have len: "length (X[i := None]) = length (y[i := None])"
      using Cons.prems by simp
    have ran: "\<forall>k\<in>set ixs. k < length (y[i := None])"
      using Cons.prems by simp
    have step: "inject_step t i (X, y) = Inr (X[i := None], y[i := None])"
      using Cons.prems True by (simp add: inject_step_def)
    show ?thesis
      using Cons.prems True
      by (auto simp add: step Cons.IH [OF len ran] nth_list_update)
  next
    case False
    have ran: "\<forall>k\<in>set ixs. k < length y"
      using Cons.prems by simp
    have step: "inject_step t i (X, y) = Inr (X, y)"
      using Cons.prems False by (simp add: inject_step_def)
    show ?thesis
      using Cons.prems False
      by (auto simp add: step Cons.IH [OF Cons.prems(1) ran])
  qed
qed

lemma inject_loop_err:
  "length X = length y \<Longrightarrow> \<exists>i\<in>set ixs. length y \<le> i \<Longrightarrow>
   inject_loop t ixs (X, y) = Inl IndexError"
proof (induction ixs arbitrary: X y)
  case Nil
  then show ?case by simp
next
  case (Cons i ixs)
  show ?case
  proof (cases "inject_step t i (X, y)")
    case (Inl e)
    then have "e = IndexError"
      by (auto simp: inject_step_def split: if_splits)
    with Inl show ?thesis by simp
  next
    case (Inr s')
    obtain X' y' where s': "s' = (X', y')" by (cases s')
    have lens: "length X' = length X \<and> length y' = length y"
      using Inr s' inject_step_length by blast
    have "i < length y"
      using Inr by (auto simp: inject_step_def split: if_splits)
    with Cons.prems have "\<exists>k\<in>set ixs. length y' \<le> k"
      using lens by auto
    moreover have "length X' = length y'"
      using lens Cons.prems by simp
    ultimately have "inject_loop t ixs (X', y') = Inl IndexError"
      by (rule Cons.IH [rotated])
    with Inr s' show ?thesis by simp
  qed
qed

lemma strip_blanked:
  "map the (filter (\<lambda>x. x \<noteq> None) (map (\<lambda>j. if P j then None else Some (f j)) js)) =
   map f (filter (\<lambda>j. \<not> P j) js)"
  by (induction js) auto

lemma nths_by_index: "map ((!) xs) (filter (\<lambda>j. j \<in> A) [0..<length xs]) = nths xs A"
proof -
  have "zip xs [0..<length xs] = map (\<lambda>j. (xs ! j, j)) [0..<length xs]"
    by (rule nth_equalityI) auto
  then show ?thesis
    by (simp add: nths_def filter_map comp_def)
qed

lemma inject_ok:
  assumes "length X = length y" and "n \<le> length y"
  shows "inject n t X y = Inr (nths X (kept n t y), nths y (kept n t y))"
proof -
  let ?P = "\<lambda>j. j < n \<and> y ! j = t"
  have ran: "\<forall>i\<in>set [0..<n]. i < length (map Some y)"
    using assms by simp
  have len: "length (map Some X) = length (map Some y)"
    using assms by simp
  have X': "map (\<lambda>j. if j \<in> set [0..<n] \<and> map Some y ! j = Some t then None else map Some X ! j)
              [0..<length (map Some X)] =
            map (\<lambda>j. if ?P j then None else Some (X ! j)) [0..<length X]"
    using assms by (auto intro!: map_cong)
  have y': "map (\<lambda>j. if j \<in> set [0..<n] \<and> map Some y ! j = Some t then None else map Some y ! j)
              [0..<length (map Some y)] =
            map (\<lambda>j. if ?P j then None else Some (y ! j)) [0..<length y]"
    using assms by (auto intro!: map_cong)
  have "cell5 n t X y =
          Inr (map (\<lambda>j. if ?P j then None else Some (X ! j)) [0..<length X],
               map (\<lambda>j. if ?P j then None else Some (y ! j)) [0..<length y])"
    unfolding cell5_def inject_loop_ok [OF len ran] X' y' ..
  moreover have "map the (filter (\<lambda>x. x \<noteq> None)
                 (map (\<lambda>j. if ?P j then None else Some (X ! j)) [0..<length X])) =
               nths X (kept n t y)"
    unfolding strip_blanked using nths_by_index [of X "kept n t y"]
    by (simp add: kept_def)
  moreover have "map the (filter (\<lambda>x. x \<noteq> None)
                 (map (\<lambda>j. if ?P j then None else Some (y ! j)) [0..<length y])) =
               nths y (kept n t y)"
    unfolding strip_blanked using nths_by_index [of y "kept n t y"]
    by (simp add: kept_def)
  ultimately show ?thesis
    by (simp only: inject_def cell6_def sum.case prod.case)
qed

lemma nths_agree:
  "(\<And>i. i < length xs \<Longrightarrow> i \<in> A \<longleftrightarrow> i \<in> B) \<Longrightarrow> nths xs A = nths xs B"
  unfolding nths_def
  by (intro arg_cong [where f = "map fst"] filter_cong) (auto simp: set_zip)

lemma nths_zip:
  "length xs = length ys \<Longrightarrow> nths (zip xs ys) A = zip (nths xs A) (nths ys A)"
  by (induction xs ys arbitrary: A rule: list_induct2) (auto simp: nths_Cons)


lemma inject_err:
  assumes "length X = length y" and "length y < n"
  shows "inject n t X y = Inl IndexError"
proof -
  have "\<exists>i\<in>set [0..<n]. length (map Some y) \<le> i"
    using assms by (auto intro: bexI [of _ "length y"])
  moreover have "length (map Some X) = length (map Some y)"
    using assms by simp
  ultimately have "cell5 n t X y = Inl IndexError"
    unfolding cell5_def by (rule inject_loop_err [rotated])
  then show ?thesis by (simp add: inject_def)
qed

lemma kept_labels:
  assumes "n \<le> length y"
  shows "nths y (kept n t y) = filter (\<lambda>l. l \<noteq> t) (take n y) @ drop n y"
proof -
  have "nths (take n y @ drop n y) (kept n t y) =
        nths (take n y) (kept n t y) @ nths (drop n y) {j. j + length (take n y) \<in> kept n t y}"
    by (rule nths_append)
  moreover have "nths (drop n y) {j. j + length (take n y) \<in> kept n t y} = drop n y"
    using assms by (intro nths_all) (simp add: kept_def)
  moreover have "nths (take n y) (kept n t y) = filter (\<lambda>l. l \<noteq> t) (take n y)"
    unfolding filter_eq_nths
    by (rule nths_agree) (auto simp: kept_def)
  ultimately show ?thesis by simp
qed

lemma count_take_drop:
  "count_list (take n ys) c + count_list (drop n ys) c = count_list ys c"
  using count_list_append [of "take n ys" "drop n ys" c] by simp

lemma count_filter_neq:
  "count_list (filter (\<lambda>l. l \<noteq> t) ys) c = (if c = t then 0 else count_list ys c)"
  by (induction ys) auto

lemma count_take_le: "count_list (take n ys) c \<le> n"
  using count_le_length [of "take n ys" c] by simp

lemma count_replicate: "count_list (replicate k a) c = (if a = c then k else 0)"
  by (induction k) auto

lemma counts_after_ok:
  assumes "length X = length y" and "n \<le> length y"
  shows "counts_after n t X y =
           Some (count_list (filter (\<lambda>l. l \<noteq> t) (take n y)) 0 + count_list (drop n y) 0,
                 count_list (filter (\<lambda>l. l \<noteq> t) (take n y)) 1 + count_list (drop n y) 1)"
  using inject_ok [OF assms] kept_labels [OF assms(2)]
  by (simp add: counts_after_def label_count_def)

section \<open>The class weights, label by label\<close>

lemma np_unique_set: "set (np_unique y) = set y"
  by (simp add: np_unique_def)

lemma np_unique_length: "length (np_unique y) = card (set y)"
  by (simp add: np_unique_def length_remdups_card_conv)

lemma fold_store:
  "fold (\<lambda>kv m. m(fst kv \<mapsto> snd kv)) (zip ks (map f ks)) m c =
     (if c \<in> set ks then Some (f c) else m c)"
  by (induction ks arbitrary: m) auto

lemma py_dict_zip_map:
  "py_dict (zip ks (map f ks)) = (\<lambda>c. if c \<in> set ks then Some (f c) else None)"
  by (rule ext) (simp add: py_dict_def fold_store)

lemma class_weights_ok:
  assumes "y \<noteq> []"
  shows "class_weights y =
           Inr (\<lambda>c. if c \<in> set y
                     then Some (of_nat (length y) / (of_nat (card (set y)) * of_nat (count_list y c)))
                     else None)"
  using assms
  by (simp add: class_weights_def compute_class_weight_def py_dict_zip_map
      np_unique_set np_unique_length)

lemma weight_of_ok:
  assumes "c \<in> set y"
  shows "weight_of y c =
           Some (of_nat (length y) / (of_nat (card (set y)) * of_nat (count_list y c)))"
proof -
  have "y \<noteq> []" using assms by auto
  then show ?thesis
    using assms by (simp add: weight_of_def class_weights_ok)
qed

lemma count_pos: "c \<in> set y \<Longrightarrow> 0 < count_list y c"
  by (simp add: count_list_0_iff zero_less_iff_neq_zero)

lemma card_pos: "c \<in> set y \<Longrightarrow> 0 < card (set y)"
  by (auto simp: card_gt_0_iff)

lemma weight_antimono:
  fixes n k a b :: nat
  assumes "0 < n" "0 < k" "0 < a" "a < b"
  shows "(of_nat n :: rat) / (of_nat k * of_nat b) < of_nat n / (of_nat k * of_nat a)"
proof -
  have "(of_nat k * of_nat a :: rat) < of_nat k * of_nat b"
    using assms by simp
  moreover have "(0::rat) < of_nat k * of_nat a"
    using assms by simp
  moreover have "(0::rat) < of_nat n"
    using assms by simp
  ultimately show ?thesis
    by (simp add: divide_strict_left_mono)
qed

lemma length_two_labels:
  assumes "set y \<subseteq> {0, 1}"
  shows "length y = count_list y 0 + count_list y (1::int)"
  using sum_count_set [OF assms] by simp

lemma scenario_length: "length scenario_X = length scenario_y"
  by (simp add: scenario_X_def scenario_y_def)

section \<open>The split and the evaluation, step by step\<close>

lemma n_test_fifth_le: "n_test (1 / 5) n \<le> n"
proof -
  have "(1 / 5) * (of_nat n :: rat) \<le> of_int (int n)"
    by simp
  then have "\<lceil>(1 / 5) * (of_nat n :: rat)\<rceil> \<le> int n"
    by (simp only: ceiling_le_iff)
  then show ?thesis
    by (simp add: n_test_def)
qed

lemma n_test_fifth_near:
  "\<bar>of_nat (n_test (1 / 5) n) - (1 / 5) * (of_nat n :: rat)\<bar> < 1"
proof -
  let ?q = "(1 / 5) * (of_nat n :: rat)"
  have nonneg: "0 \<le> \<lceil>?q\<rceil>"
    by (simp add: ceiling_le_iff [symmetric] le_ceiling_iff)
  have "of_nat (n_test (1 / 5) n) = (of_int \<lceil>?q\<rceil> :: rat)"
    unfolding n_test_def using nonneg by (simp only: of_nat_nat)
  moreover have "?q \<le> of_int \<lceil>?q\<rceil>" and "of_int \<lceil>?q\<rceil> < ?q + 1"
    by linarith+
  ultimately show ?thesis by linarith
qed

lemma split_lengths:
  assumes "length perm = length xs"
  shows "length (snd (train_test_split (1 / 5) perm xs)) = n_test (1 / 5) (length xs)"
    and "length (fst (train_test_split (1 / 5) perm xs)) = n_train (1 / 5) (length xs)"
  using assms n_test_fifth_le [of "length xs"]
  by (simp_all add: train_test_split_def Let_def n_train_def)

lemma split_mset:
  assumes "mset perm = mset [0..<length xs]"
  shows "mset (fst (train_test_split (1 / 5) perm xs)) +
         mset (snd (train_test_split (1 / 5) perm xs)) = mset xs"
proof -
  let ?t = "n_test (1 / 5) (length xs)" and ?r = "n_train (1 / 5) (length xs)"
  have len: "length perm = length xs"
    using assms by (metis length_upt mset_eq_length minus_nat.diff_0)
  have "take ?r (drop ?t perm) = drop ?t perm"
    using len by (simp add: n_train_def)
  then have "mset (map ((!) xs) (take ?r (drop ?t perm))) + mset (map ((!) xs) (take ?t perm)) =
             mset (map ((!) xs) (drop ?t perm)) + mset (map ((!) xs) (take ?t perm))"
    by (simp only:)
  also have "\<dots> = mset (map ((!) xs) (take ?t perm @ drop ?t perm))"
    by (simp only: map_append mset_append add.commute)
  also have "\<dots> = image_mset ((!) xs) (mset [0..<length xs])"
    using assms by (simp only: append_take_drop_id mset_map)
  also have "\<dots> = mset (map ((!) xs) [0..<length xs])"
    by simp
  also have "\<dots> = mset xs"
    by (simp only: map_nth)
  finally show ?thesis
    by (simp add: train_test_split_def Let_def)
qed

lemma np_round_high: "1 / 2 < p \<Longrightarrow> p \<le> 1 \<Longrightarrow> np_round p = 1"
proof (cases "p = 1")
  case True
  then show ?thesis by (simp add: np_round_def)
next
  case False
  assume "1 / 2 < p" and "p \<le> 1"
  with False have "\<lfloor>p\<rfloor> = 0" by (simp add: floor_eq_iff)
  with \<open>1 / 2 < p\<close> show ?thesis by (simp add: np_round_def)
qed

lemma np_round_low: "0 \<le> p \<Longrightarrow> p < 1 / 2 \<Longrightarrow> np_round p = 0"
proof -
  assume "0 \<le> p" and "p < 1 / 2"
  then have "\<lfloor>p\<rfloor> = 0" by (simp add: floor_eq_iff)
  with \<open>p < 1 / 2\<close> show ?thesis by (simp add: np_round_def)
qed

lemma np_round_half: "np_round (1 / 2) = 0"
proof -
  have "\<lfloor>1 / 2 :: rat\<rfloor> = 0" by (simp add: floor_eq_iff)
  then show ?thesis by (simp add: np_round_def)
qed

lemma np_round_bit:
  assumes "0 \<le> p" and "p \<le> 1"
  shows "np_round p = 0 \<or> np_round p = 1"
proof -
  consider "p < 1 / 2" | "p = 1 / 2" | "1 / 2 < p"
    by linarith
  then show ?thesis
  proof cases
    case 1
    then show ?thesis using assms np_round_low by blast
  next
    case 2
    show ?thesis unfolding 2 np_round_half by simp
  next
    case 3
    then show ?thesis using assms np_round_high by blast
  qed
qed

lemma sum_list_bits:
  "\<forall>b\<in>set bs. b = 0 \<or> b = (1::int) \<Longrightarrow> sum_list bs = int (count_list bs 1)"
  by (induction bs) auto

lemma matches_card:
  assumes "length ps = length ys"
  shows "length (filter (\<lambda>pl. fst pl = snd pl) (zip ps ys)) =
         card {i. i < length ys \<and> ps ! i = ys ! i}"
proof -
  have "{i. i < length (zip ps ys) \<and> fst (zip ps ys ! i) = snd (zip ps ys ! i)} =
        {i. i < length ys \<and> ps ! i = ys ! i}"
    using assms by auto
  then show ?thesis
    by (simp only: length_filter_conv_card)
qed

section \<open>Claims about the imbalance injection\<close>

text \<open>
  Claim C2, as the specification has it: for every dataset, target label and removal count
  N, the injector removes exactly the first N samples whose label is the target label, and
  the survivors keep their relative order.

  The loop does something else: it visits the first N positions of the dataset and removes
  the samples found there with the target label. On the labels 1, 0, 0 with N = 1 it
  looks at the first row only and removes nothing, where the specification's injector
  removes the second row.
\<close>

theorem inject_not_first_matches:
  "inject 1 0 [10, 20, 30::nat] [1, 0, 0] \<noteq> Inr (spec_inject 1 0 [10, 20, 30] [1, 0, 0])"
  by code_simp

text \<open>
  Claim C2, amended: for every dataset with at least N rows, the injector removes exactly
  the samples that stand at one of the first N positions and carry the target label, and
  the survivors (\<open>nths\<close> selects by position, in order) keep their relative order.
\<close>

theorem inject_removes_leading_positions:
  assumes "length X = length y" and "n \<le> length y"
  shows "inject n t X y = Inr (nths X (kept n t y), nths y (kept n t y)) \<and>
         kept n t y = - removed n t y \<and>
         (\<forall>i\<in>removed n t y. i < n \<and> y ! i = t)"
  using inject_ok [OF assms] by (auto simp: kept_def removed_def)

theorem inject_removes_leading_positions_witness:
  "length [10, 20, 30, 40::nat] = length [1, 0, 0, 1::int] \<and>
   (3::nat) \<le> length [1, 0, 0, 1::int] \<and>
   inject 3 0 [10, 20, 30, 40::nat] [1, 0, 0, 1] = Inr ([10, 40], [1, 1]) \<and>
   [10, 40] = nths [10, 20, 30, 40::nat] (kept 3 0 [1, 0, 0, 1]) \<and>
   [1, 1] = nths [1, 0, 0, 1::int] (kept 3 0 [1, 0, 0, 1])"
proof -
  have run: "inject 3 0 [10, 20, 30, 40::nat] [1, 0, 0, 1] = Inr ([10, 40], [1, 1])"
    by code_simp
  have len: "length [10, 20, 30, 40::nat] = length [1, 0, 0, 1::int]"
    and bound: "(3::nat) \<le> length [1, 0, 0, 1::int]"
    by simp_all
  have "inject 3 0 [10, 20, 30, 40::nat] [1, 0, 0, 1] =
          Inr (nths [10, 20, 30, 40] (kept 3 0 [1, 0, 0, 1]),
               nths [1, 0, 0, 1] (kept 3 0 [1, 0, 0, 1]))"
    using inject_removes_leading_positions [OF len bound, of 0] by (rule conjunct1)
  note sel = this [unfolded run sum.inject prod.inject]
  show ?thesis
    using len bound run sel [THEN conjunct1] sel [THEN conjunct2]
    by - (intro conjI; assumption)
qed

text \<open>
  Claim C3, as the specification has it: after the injection the count of target-label
  samples is reduced by exactly the configured removal count, and the count of the other
  class is unchanged.

  On the labels 1, 0, 0 with the count 1 and the target 0 the two samples of label 0
  both survive.
\<close>

theorem inject_count_not_reduced_by_n:
  "counts_after 1 0 [10, 20, 30::nat] [1, 0, 0] \<noteq>
     Some (label_count [1, 0, 0] 0 - 1, label_count [1, 0, 0] 1)"
  by code_simp

text \<open>
  Claim C3, amended: for every dataset with at least N rows, after the injection the count
  of target-label samples is reduced by exactly the number of target-label samples among
  the first N rows (which is at most N), and the count of every other label is unchanged.
\<close>

theorem inject_counts:
  assumes "length X = length y" and "n \<le> length y"
  shows "\<exists>X' y'. inject n t X y = Inr (X', y') \<and>
           label_count y' t = label_count y t - label_count (take n y) t \<and>
           label_count (take n y) t \<le> n \<and>
           (\<forall>c. c \<noteq> t \<longrightarrow> label_count y' c = label_count y c)"
proof -
  let ?y' = "filter (\<lambda>l. l \<noteq> t) (take n y) @ drop n y"
  have res: "inject n t X y = Inr (nths X (kept n t y), ?y')"
    using inject_ok [OF assms] kept_labels [OF assms(2)] by simp
  have "count_list ?y' t = count_list y t - count_list (take n y) t"
    using count_take_drop [of n y t] by (simp add: count_filter_neq)
  moreover have "count_list ?y' c = count_list y c" if "c \<noteq> t" for c
    using that count_take_drop [of n y c] by (simp add: count_filter_neq)
  ultimately show ?thesis
    using res count_take_le [of n y t] by (simp add: label_count_def)
qed

theorem inject_counts_witness:
  "length [10, 20, 30, 40::nat] = length [1, 0, 0, 1::int] \<and>
   (3::nat) \<le> length [1, 0, 0, 1::int] \<and>
   inject 3 0 [10, 20, 30, 40::nat] [1, 0, 0, 1] = Inr ([10, 40], [1, 1]) \<and>
   label_count [1, 1] 0 = label_count [1, 0, 0, 1] 0 - label_count (take 3 [1, 0, 0, 1]) 0 \<and>
   label_count [1, 1] 1 = label_count [1, 0, 0, 1] 1"
proof -
  have run: "inject 3 0 [10, 20, 30, 40::nat] [1, 0, 0, 1] = Inr ([10, 40], [1, 1])"
    by code_simp
  have len: "length [10, 20, 30, 40::nat] = length [1, 0, 0, 1::int]"
    and bound: "(3::nat) \<le> length [1, 0, 0, 1::int]"
    by simp_all
  obtain X' y' where r: "inject 3 0 [10, 20, 30, 40::nat] [1, 0, 0, 1] = Inr (X', y')"
    and c0: "label_count y' 0 = label_count [1, 0, 0, 1] 0 - label_count (take 3 [1, 0, 0, 1]) 0"
    and c1: "\<forall>c. c \<noteq> 0 \<longrightarrow> label_count y' c = label_count [1, 0, 0, 1] c"
    using inject_counts [OF len bound, of 0] by (elim exE conjE)
  have y': "y' = [1, 1]"
    using r unfolding run by simp
  have "label_count y' 1 = label_count [1, 0, 0, 1] 1"
    using c1 by simp
  then show ?thesis
    using len bound run c0 unfolding y' by - (intro conjI; assumption)
qed

text \<open>
  Claim C10: the injection keeps features and labels aligned. For every dataset (a feature
  list and a label list of the same length) either the loop bound exceeds the number of
  rows and the loop raises IndexError, or the injection returns, the two lists it returns
  have the same length, they are the rows of the original dataset at the same kept
  positions, and every pair found at one index afterwards stood together at one index
  before.
\<close>

theorem inject_alignment:
  assumes "length X = length y"
  shows "(length y < n \<and> inject n t X y = Inl IndexError) \<or>
         (n \<le> length y \<and>
          (\<exists>X' y'. inject n t X y = Inr (X', y') \<and> length X' = length y' \<and>
             zip X' y' = nths (zip X y) (kept n t y) \<and>
             (\<forall>j<length X'. \<exists>i<length X. X' ! j = X ! i \<and> y' ! j = y ! i)))"
proof (cases "length y < n")
  case True
  then show ?thesis using inject_err [OF assms] by simp
next
  case False
  then have n: "n \<le> length y" by simp
  let ?X' = "nths X (kept n t y)" and ?y' = "nths y (kept n t y)"
  have res: "inject n t X y = Inr (?X', ?y')"
    by (rule inject_ok [OF assms n])
  have len: "length ?X' = length ?y'"
    using assms by (simp add: length_nths)
  have z: "zip ?X' ?y' = nths (zip X y) (kept n t y)"
    using assms by (simp add: nths_zip)
  have "\<exists>i<length X. ?X' ! j = X ! i \<and> ?y' ! j = y ! i" if "j < length ?X'" for j
  proof -
    have "(?X' ! j, ?y' ! j) \<in> set (zip ?X' ?y')"
      using that len by (auto simp: set_zip)
    then have "(?X' ! j, ?y' ! j) \<in> set (zip X y)"
      unfolding z by (rule in_set_nthsD)
    then show ?thesis
      using assms by (auto simp: set_zip)
  qed
  then show ?thesis using n res len z by blast
qed

theorem inject_alignment_witness:
  "length [10, 20, 30, 40::nat] = length [1, 0, 0, 1::int] \<and>
   \<not> length [1, 0, 0, 1::int] < 3 \<and>
   inject 3 0 [10, 20, 30, 40::nat] [1, 0, 0, 1] = Inr ([10, 40], [1, 1]) \<and>
   zip [10, 40] [1, 1] =
     nths (zip [10, 20, 30, 40::nat] [1, 0, 0, 1::int]) (kept 3 0 [1, 0, 0, 1])"
proof -
  have run: "inject 3 0 [10, 20, 30, 40::nat] [1, 0, 0, 1] = Inr ([10, 40], [1, 1])"
    by code_simp
  have len: "length [10, 20, 30, 40::nat] = length [1, 0, 0, 1::int]"
    and bound: "\<not> length [1, 0, 0, 1::int] < 3"
    by simp_all
  have "\<exists>X' y'. inject 3 0 [10, 20, 30, 40::nat] [1, 0, 0, 1] = Inr (X', y') \<and>
          length X' = length y' \<and>
          zip X' y' = nths (zip [10, 20, 30, 40] [1, 0, 0, 1]) (kept 3 0 [1, 0, 0, 1]) \<and>
          (\<forall>j<length X'. \<exists>i<length [10, 20, 30, 40::nat].
             X' ! j = [10, 20, 30, 40] ! i \<and> y' ! j = [1, 0, 0, 1] ! i)"
    using inject_alignment [OF len, of 3 0] bound by argo
  then obtain X' y' where r: "inject 3 0 [10, 20, 30, 40::nat] [1, 0, 0, 1] = Inr (X', y')"
    and z: "zip X' y' = nths (zip [10, 20, 30, 40] [1, 0, 0, 1]) (kept 3 0 [1, 0, 0, 1])"
    by (elim exE conjE)
  have X': "X' = [10, 40]" and y': "y' = [1, 1]"
    using r unfolding run by simp_all
  show ?thesis
    using len bound run z unfolding X' y' by - (intro conjI; assumption)
qed

text \<open>
  Claim C8, as the specification has it: every invalid configuration, a removal count
  above the number of matching rows or an empty label sequence given to the class-weight
  estimator, makes the program raise an error instead of continuing or truncating.

  The loop has no such check. On the labels 0, 1 with the bound 2 only one row matches
  and the injection returns the other row; with the script's own constants, a dataset of
  200 rows with 5 of label 0 goes through as well.
\<close>

theorem inject_few_matches_no_error:
  "label_count [0, 1] 0 < 2 \<and> inject 2 0 [10, 20::nat] [0, 1] = Inr ([20], [1]) \<and>
   label_count (replicate 5 0 @ replicate 195 1) 0 < 200 \<and>
   \<not> isl (imbalance_injection [0..<200] (replicate 5 0 @ replicate 195 1))"
proof -
  have "inject 2 0 [10, 20::nat] [0, 1] = Inr ([20], [1])"
    by code_simp
  moreover have "imbalance_injection [0..<200] (replicate 5 0 @ replicate 195 1) =
      Inr (nths [0..<200] (kept 200 0 (replicate 5 0 @ replicate 195 1)),
           nths (replicate 5 0 @ replicate 195 1) (kept 200 0 (replicate 5 0 @ replicate 195 1)))"
    unfolding imbalance_injection_def by (rule inject_ok) simp_all
  ultimately show ?thesis
    by (simp add: label_count_def count_replicate)
qed

text \<open>
  Claim C8, amended: the injection raises an error (IndexError) exactly when the loop bound
  exceeds the number of rows of the dataset, and returns otherwise, whatever the number of
  matching rows; an empty label sequence given to the class-weight estimator is an error.
\<close>

theorem inject_error_iff_short:
  assumes "length X = length y"
  shows "(inject n t X y = Inl IndexError \<longleftrightarrow> length y < n) \<and>
         ((\<exists>r. inject n t X y = Inr r) \<longleftrightarrow> n \<le> length y) \<and>
         class_weights [] = Inl ValueError"
proof -
  have "inject n t X y = Inl IndexError" if "length y < n"
    using that by (rule inject_err [OF assms])
  moreover have "\<exists>r. inject n t X y = Inr r" if "n \<le> length y"
    using inject_ok [OF assms that] by blast
  moreover have "class_weights [] = Inl ValueError"
    by (simp add: class_weights_def compute_class_weight_def)
  ultimately show ?thesis
    by (cases "length y < n") auto
qed

theorem inject_error_iff_short_witness:
  "length [10, 20::nat] = length [0, 1::int] \<and>
   inject 3 0 [10, 20::nat] [0, 1] = Inl IndexError \<and>
   (\<exists>r. inject 2 0 [10, 20::nat] [0, 1] = Inr r) \<and>
   class_weights [] = Inl ValueError"
proof -
  have len: "length [10, 20::nat] = length [0, 1::int]" by simp
  show ?thesis
    using inject_error_iff_short [OF len, of 3 0] inject_error_iff_short [OF len, of 2 0] by simp
qed

section \<open>Claims about the class weights\<close>

text \<open>
  Claim C4: for every non-empty sequence of training labels the estimator returns a
  mapping whose keys are the labels present, and which gives each label \<open>c\<close> present the
  weight \<open>N_total / (num_unique_classes * count(c))\<close>: the length of the sequence over
  the number of distinct labels times the number of occurrences of \<open>c\<close>.
\<close>

theorem class_weights_formula:
  assumes "y \<noteq> []"
  shows "\<exists>cw. class_weights y = Inr cw \<and> dom cw = set y \<and>
           (\<forall>c\<in>set y. cw c =
              Some (of_nat (length y) / (of_nat (card (set y)) * of_nat (label_count y c))))"
  using class_weights_ok [OF assms]
  by (auto simp: label_count_def dom_def)

theorem class_weights_formula_witness:
  "[0, 1, 1::int] \<noteq> [] \<and> weight_of [0, 1, 1] 0 = Some (3 / 2) \<and>
   weight_of [0, 1, 1] 1 = Some (3 / 4) \<and> weight_of [0, 1, 1] 2 = None"
proof -
  have ne: "[0, 1, 1::int] \<noteq> []" by simp
  obtain cw where r: "class_weights [0, 1, 1] = Inr cw"
    and d: "dom cw = set [0, 1, 1]"
    and w: "\<forall>c\<in>set [0, 1, 1]. cw c =
              Some (of_nat (length [0, 1, 1::int]) /
                    (of_nat (card (set [0, 1, 1::int])) * of_nat (label_count [0, 1, 1] c)))"
    using class_weights_formula [OF ne] by (elim exE conjE)
  have "cw 0 = Some (3 / 2)" and "cw 1 = Some (3 / 4)"
    using w by (simp_all add: label_count_def)
  moreover have "cw 2 = None"
  proof -
    have "2 \<notin> dom cw" unfolding d by simp
    then show ?thesis by (simp add: domIff)
  qed
  ultimately show ?thesis
    using ne r by (simp add: weight_of_def)
qed

text \<open>
  Claim C5: for every non-empty label sequence the product of a class's weight and its
  number of occurrences is the same for every class present, namely
  \<open>N_total / num_unique_classes\<close>.
\<close>

theorem class_weights_balanced:
  assumes "y \<noteq> []"
  shows "\<exists>cw. class_weights y = Inr cw \<and>
           (\<forall>c\<in>set y. \<exists>w. cw c = Some w \<and>
              w * of_nat (label_count y c) = of_nat (length y) / of_nat (card (set y)))"
proof -
  have "of_nat (length y) / (of_nat (card (set y)) * of_nat (count_list y c)) *
          (of_nat (count_list y c) :: rat) = of_nat (length y) / of_nat (card (set y))"
    if "c \<in> set y" for c
    using count_pos [OF that] by simp
  then show ?thesis
    using class_weights_ok [OF assms] by (simp add: label_count_def)
qed

theorem class_weights_balanced_witness:
  "[0, 1, 1::int] \<noteq> [] \<and>
   (3 / 2) * of_nat (label_count [0, 1, 1] 0) = (3 / 4 :: rat) * of_nat (label_count [0, 1, 1] 1) \<and>
   weight_of [0, 1, 1] 0 = Some (3 / 2) \<and> weight_of [0, 1, 1] 1 = Some (3 / 4)"
proof -
  have ne: "[0, 1, 1::int] \<noteq> []" by simp
  obtain cw where r: "class_weights [0, 1, 1] = Inr cw"
    and w: "\<forall>c\<in>set [0, 1, 1]. \<exists>w. cw c = Some w \<and>
              w * of_nat (label_count [0, 1, 1] c) =
                of_nat (length [0, 1, 1::int]) / of_nat (card (set [0, 1, 1::int]))"
    using class_weights_balanced [OF ne] by (elim exE conjE)
  have "cw 0 = Some (3 / 2)" and "cw 1 = Some (3 / 4)"
    using w by (auto simp add: label_count_def field_simps)
  then show ?thesis
    using ne r by (simp add: weight_of_def label_count_def)
qed

text \<open>
  Claim C6: for every non-empty label sequence every computed weight is positive, and of
  two classes present the one with strictly fewer occurrences has the strictly greater
  weight.
\<close>

theorem class_weights_decreasing:
  assumes "y \<noteq> []"
  shows "\<exists>cw. class_weights y = Inr cw \<and>
           (\<forall>c\<in>set y. \<exists>w. cw c = Some w \<and> 0 < w) \<and>
           (\<forall>c1\<in>set y. \<forall>c2\<in>set y. label_count y c1 < label_count y c2 \<longrightarrow>
              (\<exists>w1 w2. cw c1 = Some w1 \<and> cw c2 = Some w2 \<and> w2 < w1))"
proof -
  let ?w = "\<lambda>c. (of_nat (length y) :: rat) / (of_nat (card (set y)) * of_nat (count_list y c))"
  have n: "0 < length y" using assms by simp
  have pos: "0 < ?w c" if "c \<in> set y" for c
    using n count_pos [OF that] card_pos [OF that] by simp
  have mono: "?w c2 < ?w c1"
    if "c1 \<in> set y" and "count_list y c1 < count_list y c2" for c1 c2
    using n card_pos [OF that(1)] count_pos [OF that(1)] that(2) by (rule weight_antimono)
  show ?thesis
    using class_weights_ok [OF assms] pos mono by (simp add: label_count_def)
qed

theorem class_weights_decreasing_witness:
  "[0, 1, 1::int] \<noteq> [] \<and> label_count [0, 1, 1] 0 < label_count [0, 1, 1] 1 \<and>
   (\<exists>w1 w2. weight_of [0, 1, 1] 0 = Some w1 \<and> weight_of [0, 1, 1] 1 = Some w2 \<and>
      0 < w2 \<and> w2 < w1)"
proof -
  have ne: "[0, 1, 1::int] \<noteq> []" by simp
  have lt: "label_count [0, 1, 1] 0 < label_count [0, 1, 1] 1"
    by (simp add: label_count_def)
  obtain cw where r: "class_weights [0, 1, 1] = Inr cw"
    and p: "\<forall>c\<in>set [0, 1, 1]. \<exists>w. cw c = Some w \<and> 0 < w"
    and m: "\<forall>c1\<in>set [0, 1, 1]. \<forall>c2\<in>set [0, 1, 1].
              label_count [0, 1, 1] c1 < label_count [0, 1, 1] c2 \<longrightarrow>
              (\<exists>w1 w2. cw c1 = Some w1 \<and> cw c2 = Some w2 \<and> w2 < w1)"
    using class_weights_decreasing [OF ne] by (elim exE conjE)
  obtain w1 w2 where "cw 0 = Some w1" and "cw 1 = Some w2" and "w2 < w1"
    using m lt by auto
  moreover have "0 < w2"
    using p \<open>cw 1 = Some w2\<close> by auto
  ultimately show ?thesis
    using ne lt r by (simp add: weight_of_def)
qed

section \<open>The scenario\<close>

text \<open>
  Claim C1, as the specification has it: with 212 minority and 357 majority samples and
  the count 200 on the minority label, the dataset holds exactly 12 minority and 357
  majority samples after the injection, and the class weights on the training split are
  about 15.375 and 0.5168.

  On a dataset of the recorded shape the injection leaves 108 minority samples, the
  number the notebook prints, not 12.
\<close>

theorem scenario_leaves_108_minority:
  "label_count scenario_y 0 = 212 \<and> label_count scenario_y 1 = 357 \<and>
   counts_after 200 0 scenario_X scenario_y = Some (108, 357) \<and>
   counts_after 200 0 scenario_X scenario_y \<noteq> Some (12, 357)"
proof -
  have "200 \<le> length scenario_y"
    by (simp add: scenario_y_def)
  from counts_after_ok [OF scenario_length this, of 0]
  have "counts_after 200 0 scenario_X scenario_y = Some (108, 357)"
    by (simp add: scenario_y_def count_replicate)
  moreover have "label_count scenario_y 0 = 212" and "label_count scenario_y 1 = 357"
    by (simp_all add: scenario_y_def label_count_def count_replicate)
  ultimately show ?thesis by simp
qed

text \<open>
  Claim C1, amended: in the scenario of the script (212 samples of label 0, 357 of label 1,
  the loop over the first 200 positions, target label 0) the dataset holds, after the
  injection, 212 minus k samples of label 0, where k is the number of label-0 samples
  among the first 200 rows, and 357 samples of label 1; the class weights of a training
  split that holds a samples of label 0 and b of label 1 are \<open>(a + b) / (2 * a)\<close> and
  \<open>(a + b) / (2 * b)\<close>. In the recorded run k is 104, which leaves 108 and 357, and the
  training split of 83 and 289 has the weights 372/166 (about 2.2410) and 372/578 (about
  0.6436).
\<close>

theorem scenario_counts_and_weights:
  assumes "length X = length y" and "set y \<subseteq> {0, 1}"
    and "label_count y 0 = 212" and "label_count y 1 = 357"
    and "set y_train = {0, 1}"
    and "label_count y_train 0 = a" and "label_count y_train 1 = b"
  shows "(\<exists>X' y'. imbalance_injection X y = Inr (X', y') \<and>
            label_count y' 0 = 212 - label_count (take 200 y) 0 \<and>
            label_count y' 1 = 357) \<and>
         weight_of y_train 0 = Some (of_nat (a + b) / (2 * of_nat a)) \<and>
         weight_of y_train 1 = Some (of_nat (a + b) / (2 * of_nat b))"
proof -
  have "length y = 569"
    using length_two_labels [OF assms(2)] assms(3,4) by (simp add: label_count_def)
  then have bound: "200 \<le> length y" by simp
  let ?y' = "filter (\<lambda>l. l \<noteq> 0) (take 200 y) @ drop 200 y"
  have res: "imbalance_injection X y = Inr (nths X (kept 200 0 y), ?y')"
    using inject_ok [OF assms(1) bound] kept_labels [OF bound]
    by (simp add: imbalance_injection_def)
  have "count_list ?y' 0 = 212 - count_list (take 200 y) 0"
    using count_take_drop [of 200 y 0] assms(3)
    by (simp add: count_filter_neq label_count_def)
  moreover have "count_list ?y' 1 = 357"
    using count_take_drop [of 200 y 1] assms(4)
    by (simp add: count_filter_neq label_count_def)
  ultimately have inj: "\<exists>X' y'. imbalance_injection X y = Inr (X', y') \<and>
            label_count y' 0 = 212 - label_count (take 200 y) 0 \<and>
            label_count y' 1 = 357"
    using res by (simp add: label_count_def)
  have len: "length y_train = a + b"
    using length_two_labels [of y_train] assms(5,6,7) by (simp add: label_count_def)
  have card: "card (set y_train) = 2"
    using assms(5) by simp
  have "weight_of y_train 0 = Some (of_nat (a + b) / (2 * of_nat a))"
    using weight_of_ok [of 0 y_train] assms(5,6) len card by (simp add: label_count_def)
  moreover have "weight_of y_train 1 = Some (of_nat (a + b) / (2 * of_nat b))"
    using weight_of_ok [of 1 y_train] assms(5,7) len card by (simp add: label_count_def)
  ultimately show ?thesis
    using inj by simp
qed

theorem scenario_counts_and_weights_witness:
  "length scenario_X = length scenario_y \<and> set scenario_y \<subseteq> {0, 1} \<and>
   label_count scenario_y 0 = 212 \<and> label_count scenario_y 1 = 357 \<and>
   set recorded_y_train = {0, 1} \<and>
   label_count recorded_y_train 0 = 83 \<and> label_count recorded_y_train 1 = 289 \<and>
   label_count (take 200 scenario_y) 0 = 104 \<and>
   (\<exists>X' y'. imbalance_injection scenario_X scenario_y = Inr (X', y') \<and>
      label_count y' 0 = 108 \<and> label_count y' 1 = 357) \<and>
   weight_of recorded_y_train 0 = Some (372 / 166) \<and>
   weight_of recorded_y_train 1 = Some (372 / 578)"
proof -
  have h1: "length scenario_X = length scenario_y"
    by (rule scenario_length)
  have h2: "set scenario_y \<subseteq> {0, 1}"
    by (simp add: scenario_y_def)
  have h3: "label_count scenario_y 0 = 212" and h4: "label_count scenario_y 1 = 357"
    by (simp_all add: scenario_y_def label_count_def count_replicate)
  have h5: "set recorded_y_train = {0, 1}"
    by (auto simp: recorded_y_train_def)
  have h6: "label_count recorded_y_train 0 = 83" and h7: "label_count recorded_y_train 1 = 289"
    by (simp_all add: recorded_y_train_def label_count_def count_replicate)
  have k: "label_count (take 200 scenario_y) 0 = 104"
    by (simp add: scenario_y_def label_count_def count_replicate)
  show ?thesis
    using scenario_counts_and_weights [OF h1 h2 h3 h4 h5 h6 h7] h1 h2 h3 h4 h5 h6 h7 k by simp
qed

section \<open>Claims about the split and the evaluation\<close>

text \<open>
  Claim C7: for every post-injection dataset the splitter partitions it, so that the size
  of the train set plus the size of the test set is the size of the dataset, and the size
  of the test set is the ratio 0.2 of the total up to rounding; 465 samples are split
  into 372 train and 93 test samples. Here the shuffle is any reordering of the positions
  and both arrays are split along it; the test size is the ratio of the total rounded up,
  less than one away from it.
\<close>

theorem split_sizes_and_partition:
  assumes "length X_data = length y_data"
    and "mset perm = mset [0..<length y_data]"
    and "cell8 perm X_data y_data = ((X_train, X_test), (y_train, y_test))"
  shows "length X_train + length X_test = length X_data \<and>
         length y_train + length y_test = length y_data \<and>
         mset X_train + mset X_test = mset X_data \<and>
         mset y_train + mset y_test = mset y_data \<and>
         length X_test = length y_test \<and>
         length y_test = nat \<lceil>(1 / 5) * (of_nat (length y_data) :: rat)\<rceil> \<and>
         \<bar>of_nat (length y_test) - (1 / 5) * (of_nat (length y_data) :: rat)\<bar> < 1 \<and>
         (length y_data = 465 \<longrightarrow> length y_train = 372 \<and> length y_test = 93)"
proof -
  have len: "length perm = length y_data"
    using assms(2) by (metis length_upt mset_eq_length minus_nat.diff_0)
  have X: "train_test_split (1 / 5) perm X_data = (X_train, X_test)"
    and y: "train_test_split (1 / 5) perm y_data = (y_train, y_test)"
    using assms(3) by (simp_all add: cell8_def)
  have lt: "length y_test = n_test (1 / 5) (length y_data)"
    and lr: "length y_train = n_train (1 / 5) (length y_data)"
    using split_lengths [OF len] y by simp_all
  have Xt: "length X_test = n_test (1 / 5) (length y_data)"
    and Xr: "length X_train = n_train (1 / 5) (length y_data)"
    using split_lengths [of perm X_data] len assms(1) X by simp_all
  have sum: "n_train (1 / 5) (length y_data) + n_test (1 / 5) (length y_data) = length y_data"
    using n_test_fifth_le [of "length y_data"] by (simp add: n_train_def)
  have mX: "mset X_train + mset X_test = mset X_data"
    using split_mset [of perm X_data] assms(1,2) X by simp
  have my: "mset y_train + mset y_test = mset y_data"
    using split_mset [OF assms(2)] y by simp
  have near: "\<bar>of_nat (length y_test) - (1 / 5) * (of_nat (length y_data) :: rat)\<bar> < 1"
    unfolding lt by (rule n_test_fifth_near)
  have scen: "length y_train = 372 \<and> length y_test = 93" if "length y_data = 465"
    unfolding lt lr that by (simp add: n_train_def n_test_def)
  show ?thesis
    using lt lr Xt Xr sum mX my near scen assms(1)
    by (simp add: n_test_def)
qed

theorem split_sizes_and_partition_witness:
  "length [0..<465] = length (replicate 96 1 @ replicate 108 0 @ replicate 261 (1::int)) \<and>
   mset (rev [0..<465]) =
     mset [0..<length (replicate 96 1 @ replicate 108 0 @ replicate 261 (1::int))] \<and>
   length (replicate 96 1 @ replicate 108 0 @ replicate 261 (1::int)) = 465 \<and>
   length (fst (snd (cell8 (rev [0..<465]) [0..<465]
      (replicate 96 1 @ replicate 108 0 @ replicate 261 1)))) = 372 \<and>
   length (snd (snd (cell8 (rev [0..<465]) [0..<465]
      (replicate 96 1 @ replicate 108 0 @ replicate 261 1)))) = 93"
proof -
  let ?y = "replicate 96 1 @ replicate 108 0 @ replicate 261 (1::int)"
  let ?r = "cell8 (rev [0..<465]) [0..<465] ?y"
  have h1: "length [0..<465] = length ?y" by simp
  have h2: "mset (rev [0..<465]) = mset [0..<length ?y]" by simp
  have h3: "?r = ((fst (fst ?r), snd (fst ?r)), (fst (snd ?r), snd (snd ?r)))" by simp
  have n: "length ?y = 465" by simp
  show ?thesis
    using split_sizes_and_partition [OF h1 h2 h3] h1 h2 n by blast
qed

text \<open>
  Claim C9: for every trained model (its outputs probabilities between 0 and 1) and every
  non-empty held-out set of features and labels, the evaluator predicts 1 where the
  probability is above 0.5 and 0 where it is below, reports as the fraction of positive
  predictions the number of predicted 1's over the number of test samples, and reports as
  accuracy the share of positions where the prediction equals the held-out label.
\<close>

theorem evaluator_reports:
  assumes "\<forall>x\<in>set X_test. 0 \<le> model x \<and> model x \<le> 1"
    and "length X_test = length y_test" and "X_test \<noteq> []"
  shows "(\<forall>i<length X_test.
            (1 / 2 < model (X_test ! i) \<longrightarrow> y_pred model X_test ! i = 1) \<and>
            (model (X_test ! i) < 1 / 2 \<longrightarrow> y_pred model X_test ! i = 0)) \<and>
         positive_fraction (y_pred model X_test) =
           Some (of_nat (count_list (y_pred model X_test) 1) / of_nat (length X_test)) \<and>
         accuracy_score (y_pred model X_test) y_test =
           Inr (of_nat (card {i. i < length y_test \<and> y_pred model X_test ! i = y_test ! i}) /
                of_nat (length y_test))"
proof -
  let ?p = "y_pred model X_test"
  have len: "length ?p = length X_test"
    by (simp add: y_pred_def predict_def)
  have nth: "?p ! i = np_round (model (X_test ! i))" if "i < length X_test" for i
    using that by (simp add: y_pred_def predict_def)
  have range: "0 \<le> model (X_test ! i) \<and> model (X_test ! i) \<le> 1" if "i < length X_test" for i
    using assms(1) that by simp
  have thr: "(1 / 2 < model (X_test ! i) \<longrightarrow> ?p ! i = 1) \<and>
             (model (X_test ! i) < 1 / 2 \<longrightarrow> ?p ! i = 0)" if "i < length X_test" for i
    using nth [OF that] range [OF that] np_round_high np_round_low by simp
  have bits: "\<forall>b\<in>set ?p. b = 0 \<or> b = 1"
  proof
    fix b assume "b \<in> set ?p"
    then obtain x where "x \<in> set X_test" and "b = np_round (model x)"
      by (auto simp: y_pred_def predict_def)
    then show "b = 0 \<or> b = 1"
      using assms(1) np_round_bit by blast
  qed
  have ne: "?p \<noteq> []"
    using assms(3) len by auto
  have frac: "positive_fraction ?p = Some (of_nat (count_list ?p 1) / of_nat (length X_test))"
    using ne by (simp add: positive_fraction_def sum_list_bits [OF bits] len)
  have "y_test \<noteq> []"
    using assms(2,3) by auto
  then have acc: "accuracy_score ?p y_test =
           Inr (of_nat (card {i. i < length y_test \<and> ?p ! i = y_test ! i}) /
                of_nat (length y_test))"
    using len assms(2) by (simp add: accuracy_score_def matches_card)
  show ?thesis
    using thr frac acc by blast
qed

theorem evaluator_reports_witness:
  "(0 \<le> (2 / 10 :: rat) \<and> (2 / 10 :: rat) \<le> 1) \<and> (0 \<le> (5 / 10 :: rat) \<and> (5 / 10 :: rat) \<le> 1) \<and>
   (0 \<le> (9 / 10 :: rat) \<and> (9 / 10 :: rat) \<le> 1) \<and>
   length [2, 5, 9::nat] = length [0, 1, 1::int] \<and> [2, 5, 9::nat] \<noteq> [] \<and>
   y_pred (\<lambda>x. of_nat x / 10) [2, 5, 9::nat] = [0, 0, 1] \<and>
   y_pred (\<lambda>x. of_nat x / 10) [2, 5, 9::nat] ! 0 = 0 \<and>
   y_pred (\<lambda>x. of_nat x / 10) [2, 5, 9::nat] ! 2 = 1 \<and>
   positive_fraction (y_pred (\<lambda>x. of_nat x / 10) [2, 5, 9::nat]) = Some (1 / 3) \<and>
   accuracy_score (y_pred (\<lambda>x. of_nat x / 10) [2, 5, 9::nat]) [0, 1, 1] = Inr (2 / 3)"
proof -
  let ?m = "\<lambda>x::nat. (of_nat x / 10 :: rat)"
  have h1: "\<forall>x\<in>set [2, 5, 9::nat]. 0 \<le> ?m x \<and> ?m x \<le> 1" by simp
  have h2: "length [2, 5, 9::nat] = length [0, 1, 1::int]" by simp
  have h3: "[2, 5, 9::nat] \<noteq> []" by simp
  note t = evaluator_reports [of "[2, 5, 9::nat]" ?m "[0, 1, 1]", OF h1 h2 h3]
  have p: "y_pred ?m [2, 5, 9::nat] = [0, 0, 1]"
    using np_round_low [of "2 / 10"] np_round_half np_round_high [of "9 / 10"]
    by (simp add: y_pred_def predict_def)
  have c: "{i. i < length [0, 1, 1::int] \<and> [0, 0, 1::int] ! i = [0, 1, 1] ! i} = {0, 2}"
  proof -
    have "(i < length [0, 1, 1::int] \<and> [0, 0, 1::int] ! i = [0, 1, 1] ! i) \<longleftrightarrow>
          (i = 0 \<or> i = 2)" for i
    proof (cases "i = 0 \<or> i = 1 \<or> i = 2")
      case True
      then show ?thesis by auto
    next
      case False
      then have "\<not> i < length [0, 1, 1::int]" by auto
      then show ?thesis using False by blast
    qed
    then have "{i. i < length [0, 1, 1::int] \<and> [0, 0, 1::int] ! i = [0, 1, 1] ! i} =
               {i. i = 0 \<or> i = 2}"
      by (rule Collect_cong)
    also have "\<dots> = {0, 2}" by auto
    finally show ?thesis .
  qed
  have thr: "y_pred ?m [2, 5, 9::nat] ! 0 = 0 \<and> y_pred ?m [2, 5, 9::nat] ! 2 = 1"
    using t [THEN conjunct1] by simp
  have frac: "positive_fraction (y_pred ?m [2, 5, 9::nat]) = Some (1 / 3)"
    using t [THEN conjunct2, THEN conjunct1] unfolding p by simp
  have acc: "accuracy_score (y_pred ?m [2, 5, 9::nat]) [0, 1, 1] = Inr (2 / 3)"
    using t [THEN conjunct2, THEN conjunct2] unfolding p c by simp
  show ?thesis
    using p thr frac acc by simp
qed

end
